theory Spec2Isabelle
  imports Main "HOL-Library.List_Lexorder"
begin

section \<open>Iterators over finite sources\<close>

text \<open>
  An iterable is modelled by the finite list of the elements it produces, and an iterator
  over it by the list of the elements not pulled yet. A pull answers with an
  \<open>IteratorResult\<close>: the flag \<open>done\<close> (here \<open>isDone\<close>) and the field
  \<open>value\<close> (here \<open>val\<close>), which is \<open>None\<close> where JavaScript has
  \<open>undefined\<close>. An exhausted iterator stays exhausted.
\<close>

datatype 'a IteratorResult = IteratorResult (isDone: bool) (val: "'a option")

definition iter_next :: "'a list \<Rightarrow> 'a IteratorResult \<times> 'a list" where
  "iter_next it = (case it of
      [] \<Rightarrow> (IteratorResult True None, [])
    | x # rest \<Rightarrow> (IteratorResult False (Some x), rest))"

section \<open>zip and zipLongest (zip.ts)\<close>

text \<open>
  The state of either generator is its array \<open>iterators\<close>. One pass of the
  \<open>while (true)\<close> loop pulls every iterator once, in order, and then either breaks
  (the generator returns: \<open>None\<close>) or yields a tuple (\<open>Some\<close>). The iterators
  are returned as the pulls left them.
\<close>

definition zip_step :: "'a list list \<Rightarrow> 'a option list option \<times> 'a list list" where
  "zip_step iterators =
     (let pulled = map iter_next iterators;
          result = map fst pulled;
          iterators' = map snd pulled
      in if list_ex isDone result then (None, iterators')
         else (Some (map val result), iterators'))"

definition zipLongest_step :: "'a list list \<Rightarrow> 'a option list option \<times> 'a list list" where
  "zipLongest_step iterators =
     (let pulled = map iter_next iterators;
          result = map fst pulled;
          iterators' = map snd pulled
      in if \<not> list_ex (\<lambda>r. \<not> isDone r) result then (None, iterators')
         else (Some (map (\<lambda>r. if isDone r then None else val r) result), iterators'))"

text \<open>
  Spreading a generator (\<open>[...zip(a, b)]\<close>) pulls it until it returns. The loop need not
  end, so the collected tuples are an option: \<open>None\<close> is a spread that never returns.
  The second component is the state of the source iterators when the generator returned.
\<close>

partial_function (option) zip_all ::
    "'a list list \<Rightarrow> ('a option list list \<times> 'a list list) option" where
  "zip_all iterators =
     (case zip_step iterators of
        (None, iterators') \<Rightarrow> Some ([], iterators')
      | (Some t, iterators') \<Rightarrow>
          Option.bind (zip_all iterators') (\<lambda>(ts, final). Some (t # ts, final)))"

partial_function (option) zipLongest_all ::
    "'a list list \<Rightarrow> ('a option list list \<times> 'a list list) option" where
  "zipLongest_all iterators =
     (case zipLongest_step iterators of
        (None, iterators') \<Rightarrow> Some ([], iterators')
      | (Some t, iterators') \<Rightarrow>
          Option.bind (zipLongest_all iterators') (\<lambda>(ts, final). Some (t # ts, final)))"

declare zip_all.simps [code]
declare zipLongest_all.simps [code]

text \<open>The answers to the first \<open>n\<close> pulls of \<open>zip\<close>, for a consumer that stops there.\<close>

fun zip_pulls :: "nat \<Rightarrow> 'a list list \<Rightarrow> 'a option list option list" where
  "zip_pulls 0 iterators = []"
| "zip_pulls (Suc n) iterators =
     (case zip_step iterators of
        (None, iterators') \<Rightarrow> [None]
      | (Some t, iterators') \<Rightarrow> Some t # zip_pulls n iterators')"

section \<open>islice\<close>

text \<open>
  Numbers are integers, except that the bound \<open>end\<close> of a slice may also be
  \<open>Infinity\<close>; an optional argument that is \<open>undefined\<close> is \<open>None\<close>.
\<close>

datatype error = TypeError string

datatype bound = Finite int | Infinity

fun bound_less :: "int \<Rightarrow> bound \<Rightarrow> bool" where
  "bound_less v (Finite e) = (v < e)"
| "bound_less v Infinity = True"

fun bound_negative :: "bound \<Rightarrow> bool" where
  "bound_negative (Finite e) = (e < 0)"
| "bound_negative Infinity = False"

text \<open>
  \<open>enumerate(iterable)\<close> is \<open>zip(count(0), iterable)\<close>: a pull takes the next number
  of the counter and the next element of the iterable, and is done when the iterable is.
  Its state is the counter and the iterator.
\<close>

definition enumerate_next :: "int \<times> 'a list \<Rightarrow> (int \<times> 'a) option \<times> (int \<times> 'a list)" where
  "enumerate_next enumerated =
     (case enumerated of (i, it) \<Rightarrow>
        (case it of
           [] \<Rightarrow> (None, (i + 1, []))
         | x # rest \<Rightarrow> (Some (i, x), (i + 1, rest))))"

text \<open>
  The three checks shared by all call forms, in the order of the source, and the choice of
  \<open>start\<close>, \<open>end\<close> and \<open>step\<close> from the arguments the caller passed.
\<close>

definition islice_check :: "int \<Rightarrow> bound \<Rightarrow> int \<Rightarrow> error + (int \<times> bound \<times> int)" where
  "islice_check start end step =
     (if start < 0 then Inl (TypeError ''start param must be non-negative or undefined'')
      else if bound_negative end then Inl (TypeError ''end param must be non-negative or undefined'')
      else if step \<le> 0 then Inl (TypeError ''step param must be positive or undefined'')
      else Inr (start, end, step))"

definition islice_args :: "int \<Rightarrow> bound option \<Rightarrow> int option \<Rightarrow> error + (int \<times> bound \<times> int)" where
  "islice_args startOrEnd endValue stepValue =
     (case endValue of
        None \<Rightarrow>
          (case stepValue of
             None \<Rightarrow>
               if startOrEnd < 0 then Inl (TypeError ''k param must be non-negative or undefined'')
               else islice_check 0 (Finite startOrEnd) 1
           | Some s \<Rightarrow> islice_check startOrEnd Infinity s)
      | Some e \<Rightarrow>
          islice_check startOrEnd e (case stepValue of None \<Rightarrow> 1 | Some s \<Rightarrow> s))"

text \<open>
  \<open>islice\<close> is a generator function. Calling it runs nothing of its body: the call
  returns a generator suspended at the start, which holds the arguments. The body runs
  from the first pull on. A generator is later suspended at its \<open>yield\<close>, or finished
  (it returned or threw).
\<close>

datatype 'a islice_gen =
    IsliceStart "'a list" int "bound option" "int option"
  | IsliceYield "int \<times> 'a list" int bound int
  | IsliceDone "int \<times> 'a list"

datatype 'a outcome = Yielded 'a | Returned | Threw error

definition islice :: "'a list \<Rightarrow> int \<Rightarrow> bound option \<Rightarrow> int option \<Rightarrow> error + 'a islice_gen" where
  "islice iterable startOrEnd endValue stepValue =
     Inr (IsliceStart iterable startOrEnd endValue stepValue)"

text \<open>The elements of the source that the generator has not pulled.\<close>

fun islice_source :: "'a islice_gen \<Rightarrow> 'a list" where
  "islice_source (IsliceStart iterable startOrEnd endValue stepValue) = iterable"
| "islice_source (IsliceYield enumerated select end step) = snd enumerated"
| "islice_source (IsliceDone enumerated) = snd enumerated"

text \<open>
  The inner \<open>for (;;)\<close>: pull \<open>enumerated\<close> until it is done (\<open>None\<close>: the generator
  returns) or the pair with index \<open>select\<close> comes (its element is yielded).
\<close>

function islice_scan :: "int \<Rightarrow> int \<times> 'a list \<Rightarrow> 'a option \<times> (int \<times> 'a list)" where
  "islice_scan select enumerated =
     (case enumerate_next enumerated of
        (None, enumerated') \<Rightarrow> (None, enumerated')
      | (Some (i, v), enumerated') \<Rightarrow>
          if i = select then (Some v, enumerated') else islice_scan select enumerated')"
  by pat_completeness auto
termination
  by (relation "measure (\<lambda>(select, enumerated). length (snd enumerated))")
     (auto simp: enumerate_next_def split: list.splits)

declare islice_scan.simps [simp del]

text \<open>
  The outer \<open>for (const select of takeWhile(count(start, step), (v) => v < end))\<close>,
  entered with the next number \<open>select\<close> of the counter: \<open>takeWhile\<close> ends the loop
  at the first number that is not below \<open>end\<close>.
\<close>

definition islice_for ::
    "int \<times> 'a list \<Rightarrow> int \<Rightarrow> bound \<Rightarrow> int \<Rightarrow> 'a outcome \<times> 'a islice_gen" where
  "islice_for enumerated select end step =
     (if bound_less select end then
        (case islice_scan select enumerated of
           (None, enumerated') \<Rightarrow> (Returned, IsliceDone enumerated')
         | (Some v, enumerated') \<Rightarrow> (Yielded v, IsliceYield enumerated' select end step))
      else (Returned, IsliceDone enumerated))"

text \<open>One pull of the generator.\<close>

definition islice_next :: "'a islice_gen \<Rightarrow> 'a outcome \<times> 'a islice_gen" where
  "islice_next gen =
     (case gen of
        IsliceStart iterable startOrEnd endValue stepValue \<Rightarrow>
          (case islice_args startOrEnd endValue stepValue of
             Inl e \<Rightarrow> (Threw e, IsliceDone (0, iterable))
           | Inr (start, end, step) \<Rightarrow> islice_for (0, iterable) start end step)
      | IsliceYield enumerated select end step \<Rightarrow>
          islice_for enumerated (select + step) end step
      | IsliceDone enumerated \<Rightarrow> (Returned, IsliceDone enumerated))"

text \<open>Spreading the generator: everything it yields until it returns, or the error it throws.\<close>

function islice_all :: "'a islice_gen \<Rightarrow> error + 'a list" where
  "islice_all gen =
     (case islice_next gen of
        (Yielded v, gen') \<Rightarrow>
          (case islice_all gen' of Inl e \<Rightarrow> Inl e | Inr vs \<Rightarrow> Inr (v # vs))
      | (Returned, gen') \<Rightarrow> Inr []
      | (Threw e, gen') \<Rightarrow> Inl e)"
  by pat_completeness auto

lemma islice_scan_shorter:
  "islice_scan select en = (Some v, en') \<Longrightarrow> length (snd en') < length (snd en)"
proof (induction select en rule: islice_scan.induct)
  case (1 select enumerated)
  obtain i it where en: "enumerated = (i, it)" by (cases enumerated)
  show ?case
  proof (cases it)
    case Nil
    with 1(2) en show ?thesis
      by (subst (asm) islice_scan.simps) (simp add: enumerate_next_def)
  next
    case (Cons x rest)
    then have nx: "enumerate_next enumerated = (Some (i, x), (i + 1, rest))"
      using en by (simp add: enumerate_next_def)
    show ?thesis
    proof (cases "i = select")
      case True
      with 1(2) nx en Cons show ?thesis
        by (subst (asm) islice_scan.simps) auto
    next
      case False
      with 1(2) nx have "islice_scan select (i + 1, rest) = (Some v, en')"
        by (subst (asm) islice_scan.simps) simp
      from "1.IH"[OF nx[symmetric] refl refl False this] en Cons show ?thesis by simp
    qed
  qed
qed

lemma islice_for_shorter:
  "islice_for en select end step = (Yielded v, gen') \<Longrightarrow>
     length (islice_source gen') < length (snd en)"
  unfolding islice_for_def
  by (cases "bound_less select end"; cases "islice_scan select en"; cases "fst (islice_scan select en)")
     (auto dest: islice_scan_shorter)

lemma islice_next_shorter:
  "islice_next gen = (Yielded v, gen') \<Longrightarrow> length (islice_source gen') < length (islice_source gen)"
proof (cases gen)
  case (IsliceStart iterable a b c)
  assume "islice_next gen = (Yielded v, gen')"
  with IsliceStart show ?thesis
    by (cases "islice_args a b c") (auto simp: islice_next_def dest: islice_for_shorter)
next
  case (IsliceYield en select e step)
  assume "islice_next gen = (Yielded v, gen')"
  with IsliceYield show ?thesis
    by (auto simp: islice_next_def dest: islice_for_shorter)
next
  case (IsliceDone en)
  assume "islice_next gen = (Yielded v, gen')"
  with IsliceDone show ?thesis by (simp add: islice_next_def)
qed

termination islice_all
  by (relation "measure (\<lambda>gen. length (islice_source gen))")
     (auto dest: islice_next_shorter[OF sym])

declare islice_all.simps [simp del]

text \<open>Spreading the result of a call: the error of the call, if it raised one.\<close>

definition islice_spread :: "error + 'a islice_gen \<Rightarrow> error + 'a list" where
  "islice_spread r = (case r of Inl e \<Rightarrow> Inl e | Inr gen \<Rightarrow> islice_all gen)"

section \<open>groupBy\<close>

text \<open>
  The variables that the outer generator and all its groupers share: the iterator
  \<open>it\<close> over the source, \<open>currKey\<close>, \<open>targetKey\<close>, \<open>currValue\<close> and the
  object \<open>id\<close> (here \<open>id_obj\<close>), together with the place where the outer generator
  is suspended. \<open>currKey\<close> and \<open>targetKey\<close> start as one dummy object that equals
  no key: \<open>None\<close>. \<open>currValue\<close> is \<open>None\<close> while it holds its dummy object or
  \<open>undefined\<close>. Every \<open>id = {}\<close> makes an object different from all earlier ones:
  the next number.
\<close>

datatype outer_pc = OStart | OYield | ODone

record ('a, 'k) groupBy_state =
  it :: "'a list"
  currKey :: "'k option"
  targetKey :: "'k option"
  currValue :: "'a option"
  id_obj :: nat
  outer :: outer_pc

text \<open>A grouper is a generator of its own: suspended at its start, at its \<open>yield\<close>, or finished.\<close>

datatype grouper_pc = GStart | GYield | GDone

record grouper =
  targetId :: nat
  pc :: grouper_pc

definition groupBy :: "'a list \<Rightarrow> ('a, 'k) groupBy_state" where
  "groupBy iterable =
     \<lparr>it = iterable, currKey = None, targetKey = None, currValue = None, id_obj = 0,
      outer = OStart\<rparr>"

text \<open>
  The statement both loops share,
  \<open>if (!({ value: currValue } = it.next()).done) { currKey = keyFunc(currValue) } else { return }\<close>:
  the flag says whether the iterator was done.
\<close>

definition advance :: "('a \<Rightarrow> 'k) \<Rightarrow> ('a, 'k) groupBy_state \<Rightarrow> bool \<times> ('a, 'k) groupBy_state" where
  "advance keyFunc s =
     (case iter_next (it s) of (r, it') \<Rightarrow>
        (let s' = s\<lparr>it := it', currValue := val r\<rparr>
         in if \<not> isDone r then (False, s'\<lparr>currKey := map_option keyFunc (currValue s')\<rparr>)
            else (True, s')))"

text \<open>
  The grouper: \<open>while (id === targetId && currKey === targetKey)\<close> around a
  \<open>yield currValue\<close> and the shared statement. A grouper resumed at its \<open>yield\<close>
  runs the shared statement first and tests the loop condition after it.
\<close>

definition grouper_loop ::
    "grouper \<Rightarrow> ('a, 'k) groupBy_state \<Rightarrow> 'a option option \<times> grouper \<times> ('a, 'k) groupBy_state" where
  "grouper_loop g s =
     (if id_obj s = targetId g \<and> currKey s = targetKey s
      then (Some (currValue s), g\<lparr>pc := GYield\<rparr>, s)
      else (None, g\<lparr>pc := GDone\<rparr>, s))"

definition grouper_next ::
    "('a \<Rightarrow> 'k) \<Rightarrow> grouper \<Rightarrow> ('a, 'k) groupBy_state
       \<Rightarrow> 'a option option \<times> grouper \<times> ('a, 'k) groupBy_state" where
  "grouper_next keyFunc g s =
     (case pc g of
        GStart \<Rightarrow> grouper_loop g s
      | GYield \<Rightarrow>
          (case advance keyFunc s of
             (True, s') \<Rightarrow> (None, g\<lparr>pc := GDone\<rparr>, s')
           | (False, s') \<Rightarrow> grouper_loop g s')
      | GDone \<Rightarrow> (None, g, s))"

text \<open>The outer generator's \<open>while (currKey === targetKey)\<close>; the flag says whether it returned.\<close>

function groupBy_skip ::
    "('a \<Rightarrow> 'k) \<Rightarrow> ('a, 'k) groupBy_state \<Rightarrow> bool \<times> ('a, 'k) groupBy_state" where
  "groupBy_skip keyFunc s =
     (if currKey s = targetKey s then
        (case advance keyFunc s of
           (True, s') \<Rightarrow> (True, s')
         | (False, s') \<Rightarrow> groupBy_skip keyFunc s')
      else (False, s))"
  by pat_completeness auto
termination
  by (relation "measure (\<lambda>(keyFunc, s). length (it s))")
     (auto simp: advance_def iter_next_def Let_def split: list.splits)

declare groupBy_skip.simps [simp del]

text \<open>
  One pull of the outer generator: a pass of its \<open>while (true)\<close>. It yields the key and
  a new grouper, or returns.
\<close>

definition groupBy_next ::
    "('a \<Rightarrow> 'k) \<Rightarrow> ('a, 'k) groupBy_state
       \<Rightarrow> ('k option \<times> grouper) option \<times> ('a, 'k) groupBy_state" where
  "groupBy_next keyFunc s =
     (case outer s of
        ODone \<Rightarrow> (None, s)
      | _ \<Rightarrow>
          (case groupBy_skip keyFunc (s\<lparr>id_obj := id_obj s + 1\<rparr>) of
             (True, s') \<Rightarrow> (None, s'\<lparr>outer := ODone\<rparr>)
           | (False, s') \<Rightarrow>
               (let s'' = s'\<lparr>targetKey := currKey s'\<rparr>
                in (Some (currKey s'', \<lparr>targetId = id_obj s'', pc = GStart\<rparr>),
                    s''\<lparr>outer := OYield\<rparr>))))"

text \<open>Spreading a grouper: what it yields until it returns, and the shared variables after it.\<close>

function grouper_all ::
    "('a \<Rightarrow> 'k) \<Rightarrow> grouper \<Rightarrow> ('a, 'k) groupBy_state \<Rightarrow> 'a option list \<times> ('a, 'k) groupBy_state" where
  "grouper_all keyFunc g s =
     (case grouper_next keyFunc g s of
        (None, g', s') \<Rightarrow> ([], s')
      | (Some v, g', s') \<Rightarrow>
          (case grouper_all keyFunc g' s' of (vs, s'') \<Rightarrow> (v # vs, s'')))"
  by pat_completeness auto
termination
  by (relation "measure (\<lambda>(keyFunc, g, s). 2 * length (it s) + (if pc g = GStart then 1 else 0))")
     (auto simp: grouper_next_def grouper_loop_def advance_def iter_next_def Let_def
           split: grouper_pc.splits list.splits if_splits)

declare grouper_all.simps [simp del]



section \<open>combinations and combinationsWithReplacement (combinations.ts)\<close>

text \<open>
  The arity \<open>r\<close> and the positions in \<open>indicies\<close> are natural numbers. The loop
  variable \<open>i\<close> of the scans runs from \<open>r - 1\<close> down to \<open>-1\<close>: the scans below
  count \<open>i + 1\<close> down to 0, and their answer \<open>None\<close> is the exit with
  \<open>i === -1\<close>. The array \<open>indicies\<close> has \<open>r\<close> elements and every loop reads and
  writes it below \<open>r\<close>. Reading \<open>saved\<close> outside the array gives \<open>undefined\<close>.
\<close>

definition array_get :: "'a list \<Rightarrow> nat \<Rightarrow> 'a option" where
  "array_get saved i = (if i < length saved then Some (saved ! i) else None)"

subsection \<open>combinations\<close>

text \<open>
  \<open>for (; i >= 0; i--) { if (indicies[i] !== i + n - r) break }\<close>. The loop is only
  reached with \<open>r \<le> n\<close>, where \<open>i + n - r\<close> is not negative.
\<close>

fun comb_scan :: "nat \<Rightarrow> nat \<Rightarrow> nat list \<Rightarrow> nat \<Rightarrow> nat option" where
  "comb_scan n r indicies 0 = None"
| "comb_scan n r indicies (Suc i) =
     (if indicies ! i \<noteq> i + n - r then Some i else comb_scan n r indicies i)"

text \<open>\<open>for (let j = i + 1; j < r; j++) { indicies[j] = indicies[j - 1] + 1 }\<close>, entered at \<open>j\<close>.\<close>

function comb_reset :: "nat \<Rightarrow> nat list \<Rightarrow> nat \<Rightarrow> nat list" where
  "comb_reset r indicies j =
     (if j < r then comb_reset r (indicies[j := indicies ! (j - 1) + 1]) (j + 1)
      else indicies)"
  by pat_completeness auto
termination
  by (relation "measure (\<lambda>(r, indicies, j). r - j)") auto

declare comb_reset.simps [simp del]

text \<open>
  The \<open>for (;;)\<close> loop, entered with the array \<open>indicies\<close>. Its result lists the
  contents of \<open>indicies\<close> at the successive \<open>yield\<close>s; \<open>None\<close> is a loop that never
  ends.
\<close>

partial_function (option) comb_loop :: "nat \<Rightarrow> nat \<Rightarrow> nat list \<Rightarrow> nat list list option" where
  "comb_loop n r indicies =
     (case comb_scan n r indicies r of
        None \<Rightarrow> Some [indicies]
      | Some i \<Rightarrow>
          Option.bind
            (comb_loop n r (comb_reset r (indicies[i := indicies ! i + 1]) (i + 1)))
            (\<lambda>later. Some (indicies # later)))"

declare comb_loop.simps [code]

text \<open>
  The tuples of the generator: each \<open>yield\<close> gives \<open>indicies.map((i) => saved[i])\<close>
  for the array \<open>indicies\<close> of that moment. \<open>[...range(r)]\<close> is \<open>[0, ..., r - 1]\<close>.
\<close>

definition combinations :: "'a list \<Rightarrow> nat \<Rightarrow> 'a option list list option" where
  "combinations iterable r =
     (let saved = iterable; n = length saved
      in if r > n then Some []
         else map_option (map (\<lambda>indicies. map (\<lambda>i. array_get saved i) indicies))
                (comb_loop n r [0..<r]))"

subsection \<open>combinationsWithReplacement\<close>

text \<open>
  \<open>for (; i >= 0; i--) { if (indicies[i] !== n - 1) break }\<close>. The loop body runs only
  with \<open>r > 0\<close>, and then \<open>n > 0\<close>.
\<close>

fun cwr_scan :: "nat \<Rightarrow> nat list \<Rightarrow> nat \<Rightarrow> nat option" where
  "cwr_scan n indicies 0 = None"
| "cwr_scan n indicies (Suc i) =
     (if indicies ! i \<noteq> n - 1 then Some i else cwr_scan n indicies i)"

text \<open>\<open>for (let j = i + 1; j < r; j++) { indicies[j] = indicies[j - 1] }\<close>, entered at \<open>j\<close>.\<close>

function cwr_reset :: "nat \<Rightarrow> nat list \<Rightarrow> nat \<Rightarrow> nat list" where
  "cwr_reset r indicies j =
     (if j < r then cwr_reset r (indicies[j := indicies ! (j - 1)]) (j + 1)
      else indicies)"
  by pat_completeness auto
termination
  by (relation "measure (\<lambda>(r, indicies, j). r - j)") auto

declare cwr_reset.simps [simp del]

partial_function (option) cwr_loop :: "nat \<Rightarrow> nat \<Rightarrow> nat list \<Rightarrow> nat list list option" where
  "cwr_loop n r indicies =
     (case cwr_scan n indicies r of
        None \<Rightarrow> Some [indicies]
      | Some i \<Rightarrow>
          Option.bind
            (cwr_loop n r (cwr_reset r (indicies[i := indicies ! i + 1]) (i + 1)))
            (\<lambda>later. Some (indicies # later)))"

declare cwr_loop.simps [code]

text \<open>\<open>Array(r).fill(0)\<close> is \<open>r\<close> zeros.\<close>

definition combinationsWithReplacement :: "'a list \<Rightarrow> nat \<Rightarrow> 'a option list list option" where
  "combinationsWithReplacement iterable r =
     (let saved = iterable; n = length saved
      in if n = 0 \<and> r \<noteq> 0 then Some []
         else map_option (map (\<lambda>indicies. map (\<lambda>i. array_get saved i) indicies))
                (cwr_loop n r (replicate r 0)))"

section \<open>Properties of zip and zipLongest\<close>

lemma snd_iter_next: "snd (iter_next xs) = tl xs"
  by (cases xs) (auto simp: iter_next_def)

lemma isDone_iter_next: "isDone (fst (iter_next xs)) = (xs = [])"
  by (cases xs) (auto simp: iter_next_def)

lemma val_iter_next: "val (fst (iter_next xs)) = (case xs of [] \<Rightarrow> None | x # _ \<Rightarrow> Some x)"
  by (cases xs) (auto simp: iter_next_def)

lemma zip_step_lists:
  "zip_step its =
     (if [] \<in> set its then None else Some (map (\<lambda>xs. Some (hd xs)) its), map tl its)"
  by (auto simp: zip_step_def Let_def list_ex_iff isDone_iter_next val_iter_next
        snd_iter_next comp_def split: list.splits)

lemma zipLongest_step_lists:
  "zipLongest_step its =
     (if \<forall>xs\<in>set its. xs = [] then None
      else Some (map (\<lambda>xs. case xs of [] \<Rightarrow> None | x # _ \<Rightarrow> Some x) its), map tl its)"
  by (auto simp: zipLongest_step_def Let_def list_ex_iff isDone_iter_next val_iter_next
        snd_iter_next comp_def split: list.splits)

lemma upt_Suc_shift: "[0..<Suc m] = 0 # map Suc [0..<m]"
  by (simp add: upt_conv_Cons map_Suc_upt del: upt_Suc)

lemma zip_all_lists:
  "\<forall>xs\<in>set its. m \<le> length xs \<Longrightarrow> \<exists>xs\<in>set its. length xs = m \<Longrightarrow>
   zip_all its =
     Some (map (\<lambda>k. map (\<lambda>xs. Some (xs ! k)) its) [0..<m], map (drop (Suc m)) its)"
proof (induction m arbitrary: its)
  case 0
  then have "[] \<in> set its" by auto
  then show ?case
    by (subst zip_all.simps) (simp add: zip_step_lists drop_Suc)
next
  case (Suc m)
  have ne: "[] \<notin> set its" using Suc.prems(1) by auto
  have a: "\<forall>xs\<in>set (map tl its). m \<le> length xs" using Suc.prems(1) by auto
  have b: "\<exists>xs\<in>set (map tl its). length xs = m" using Suc.prems(2) by force
  have hd0: "map (\<lambda>xs. Some (hd xs)) its = map (\<lambda>xs. Some (xs ! 0)) its"
  proof -
    have "\<forall>x\<in>set its. hd x = x ! 0" using ne by (metis hd_conv_nth)
    then show ?thesis by simp
  qed
  have tlk: "\<And>k. k < m \<Longrightarrow> map (\<lambda>xs. Some (xs ! k)) (map tl its) = map (\<lambda>xs. Some (xs ! Suc k)) its"
    using Suc.prems(1) by (auto simp: nth_tl)
  have rest: "map (\<lambda>k. map (\<lambda>xs. Some (xs ! k)) (map tl its)) [0..<m]
      = map (\<lambda>k. map (\<lambda>xs. Some (xs ! k)) its) (map Suc [0..<m])"
    using tlk by (simp add: comp_def)
  show ?case
    apply (subst zip_all.simps)
    apply (simp only: zip_step_lists ne if_False prod.case option.case Suc.IH[OF a b])
    apply (simp only: upt_Suc_shift rest hd0)
    apply (simp add: drop_Suc comp_def)
    done
qed

lemma zipLongest_all_lists:
  "\<forall>xs\<in>set its. length xs \<le> m \<Longrightarrow> \<exists>xs\<in>set its. length xs = m \<Longrightarrow>
   zipLongest_all its =
     Some (map (\<lambda>k. map (\<lambda>xs. if k < length xs then Some (xs ! k) else None) its) [0..<m],
           map (\<lambda>xs. []) its)"
proof (induction m arbitrary: its)
  case 0
  then have "\<forall>xs\<in>set its. xs = []" by auto
  then show ?case
    by (subst zipLongest_all.simps) (auto simp add: zipLongest_step_lists)
next
  case (Suc m)
  have ne: "\<not> (\<forall>xs\<in>set its. xs = [])" using Suc.prems(2) by force
  have a: "\<forall>xs\<in>set (map tl its). length xs \<le> m" using Suc.prems(1) by auto
  have b: "\<exists>xs\<in>set (map tl its). length xs = m" using Suc.prems(2) by force
  have hd0: "map (\<lambda>xs. case xs of [] \<Rightarrow> None | x # _ \<Rightarrow> Some x) its
      = map (\<lambda>xs. if 0 < length xs then Some (xs ! 0) else None) its"
    by (auto split: list.splits)
  have tlk: "\<And>k. map (\<lambda>xs. if k < length xs then Some (xs ! k) else None) (map tl its)
       = map (\<lambda>xs. if Suc k < length xs then Some (xs ! Suc k) else None) its"
    by (auto simp: nth_tl)
  have rest: "map (\<lambda>k. map (\<lambda>xs. if k < length xs then Some (xs ! k) else None) (map tl its)) [0..<m]
      = map (\<lambda>k. map (\<lambda>xs. if k < length xs then Some (xs ! k) else None) its) (map Suc [0..<m])"
    using tlk by (simp add: comp_def)
  show ?case
    apply (subst zipLongest_all.simps)
    apply (simp only: zipLongest_step_lists ne if_False prod.case option.case Suc.IH[OF a b])
    apply (simp only: upt_Suc_shift rest hd0)
    apply (simp add: comp_def)
    done
qed

lemma zip_all_no_sources_aux:
  assumes "zip_all its = Some y"
  shows "its \<noteq> []"
proof (rule zip_all.raw_induct[where P = "\<lambda>its y. its \<noteq> []" and iterators = its and y = y])
  fix f :: "'a list list \<Rightarrow> ('a option list list \<times> 'a list list) option"
    and its' :: "'a list list" and y'
  assume IH: "\<And>x y. f x = Some y \<Longrightarrow> x \<noteq> []"
  assume eq: "(case zip_step its' of
        (None, iterators') \<Rightarrow> Some ([], iterators')
      | (Some t, iterators') \<Rightarrow>
          Option.bind (f iterators') (\<lambda>(ts, final). Some (t # ts, final))) = Some y'"
  show "its' \<noteq> []"
  proof
    assume "its' = []"
    with eq obtain r where "f [] = Some r"
      by (auto simp: zip_step_def split: Option.bind_splits)
    from IH[OF this] show False by simp
  qed
next
  show "zip_all its = Some y" by fact
qed

lemma zip_pulls_no_sources: "zip_pulls n [] = replicate n (Some [])"
  by (induction n) (simp_all add: zip_step_def)

text \<open>
  Claim C5. For one or more finite sources whose shortest has \<open>m\<close> elements,
  \<open>zip\<close> yields exactly \<open>m\<close> tuples and then returns; the \<open>k\<close>-th tuple holds
  the \<open>k\<close>-th element of every source, in the order of the sources. The generator
  returns in the pass in which some source is exhausted: by then every source has been
  pulled \<open>m + 1\<close> times, so the elements at position \<open>m\<close> of the longer sources
  are gone, and no tuple was yielded for them.
\<close>

theorem zip_spec:
  assumes "sources \<noteq> []"
  shows "zip_all sources =
     Some (map (\<lambda>k. map (\<lambda>xs. Some (xs ! k)) sources) [0..<Min (length ` set sources)],
           map (drop (Suc (Min (length ` set sources)))) sources)"
proof (rule zip_all_lists)
  have fin: "finite (length ` set sources)" and ne: "length ` set sources \<noteq> {}"
    using assms by auto
  show "\<forall>xs\<in>set sources. Min (length ` set sources) \<le> length xs"
    using fin by simp
  show "\<exists>xs\<in>set sources. length xs = Min (length ` set sources)"
    using Min_in[OF fin ne] by auto
qed

theorem zip_spec_witness:
  "zip_all [[1::nat, 2, 3], [4]] = Some ([[Some 1, Some 4]], [[3], []])"
  using zip_spec[of "[[1::nat, 2, 3], [4]]"] by (simp add: upt_conv_Cons)

text \<open>
  Claim C6. For one or more finite sources whose longest has \<open>M\<close> elements,
  \<open>zipLongest\<close> yields exactly \<open>M\<close> tuples; at position \<open>k\<close> the slot of a
  source that still has an element holds that element, the slot of an exhausted source
  holds \<open>undefined\<close> (\<open>None\<close>), and the generator returns only once every source
  is exhausted.
\<close>

theorem zipLongest_spec:
  assumes "sources \<noteq> []"
  shows "zipLongest_all sources =
     Some (map (\<lambda>k. map (\<lambda>xs. if k < length xs then Some (xs ! k) else None) sources)
             [0..<Max (length ` set sources)],
           map (\<lambda>xs. []) sources)"
proof (rule zipLongest_all_lists)
  have fin: "finite (length ` set sources)" and ne: "length ` set sources \<noteq> {}"
    using assms by auto
  show "\<forall>xs\<in>set sources. length xs \<le> Max (length ` set sources)"
    using fin by simp
  show "\<exists>xs\<in>set sources. length xs = Max (length ` set sources)"
    using Max_in[OF fin ne] by auto
qed

theorem zipLongest_spec_witness:
  "zipLongest_all [''Hat'', ''3''] =
     Some ([[Some CHR ''H'', Some CHR ''3''], [Some CHR ''a'', None], [Some CHR ''t'', None]], [[], []])"
  using zipLongest_spec[of "[''Hat'', ''3'']"] by (simp add: upt_conv_Cons)

text \<open>
  Claim C10. With no sources at all, \<open>zipLongest\<close> returns at its first pull without a
  tuple, while every pull of \<open>zip\<close> yields the empty tuple and leaves the generator
  as it was: any number of pulls is answered by empty tuples, and spreading it never
  returns.
\<close>

theorem zip_no_sources:
  "zipLongest_all ([] :: 'a list list) = Some ([], [])
   \<and> zip_step ([] :: 'a list list) = (Some [], [])
   \<and> (\<forall>n. zip_pulls n ([] :: 'a list list) = replicate n (Some []))
   \<and> zip_all ([] :: 'a list list) = None"
proof -
  have "zip_all ([] :: 'a list list) = None"
    using zip_all_no_sources_aux[of "[] :: 'a list list"] by (cases "zip_all ([] :: 'a list list)") auto
  moreover have "zipLongest_all ([] :: 'a list list) = Some ([], [])"
    by (subst zipLongest_all.simps) (simp add: zipLongest_step_def)
  ultimately show ?thesis
    by (simp add: zip_pulls_no_sources zip_step_def)
qed

section \<open>Properties of islice\<close>








text \<open>
  Claim C8 says that invalid arguments make \<open>islice\<close> raise at the call. They do not:
  the call of a generator function only creates the generator. Here \<open>step\<close> is 0 and
  the call returns normally.
\<close>

theorem islice_call_does_not_raise:
  "\<not> (\<exists>e. islice [1::int, 2, 3] 0 (Some (Finite 5)) (Some 0) = Inl e)"
  by (simp add: islice_def)

text \<open>
  Claim C8, amended. For every source and every triple with \<open>start < 0\<close>,
  \<open>end < 0\<close> or \<open>step \<le> 0\<close>, the call returns a generator without raising, and
  the first pull of that generator throws a \<open>TypeError\<close>: nothing has been yielded,
  and no element of the source has been pulled (the source iterator holds all of
  \<open>xs\<close>). The same holds for \<open>islice(source, k)\<close> with a negative \<open>k\<close>.
\<close>

theorem islice_invalid_args:
  assumes "start < 0 \<or> bound_negative end \<or> step \<le> 0"
  shows "islice xs start (Some end) (Some step) = Inr (IsliceStart xs start (Some end) (Some step))
       \<and> (\<exists>msg. islice_next (IsliceStart xs start (Some end) (Some step)) =
              (Threw (TypeError msg), IsliceDone (0, xs))
            \<and> islice_spread (islice xs start (Some end) (Some step)) = Inl (TypeError msg))
       \<and> islice_source (snd (islice_next (IsliceStart xs start (Some end) (Some step)))) = xs
       \<and> (k < 0 \<longrightarrow> (\<exists>msg. islice_next (IsliceStart xs k None None) =
              (Threw (TypeError msg), IsliceDone (0, xs))))"
proof -
  have single: "k < 0 \<longrightarrow> (\<exists>msg. islice_next (IsliceStart xs k None None) =
              (Threw (TypeError msg), IsliceDone (0, xs)))"
    by (simp add: islice_next_def islice_args_def)
  have "\<exists>msg. islice_check start end step = Inl (TypeError msg)"
    using assms unfolding islice_check_def
    by (cases "start < 0"; cases "bound_negative end"; simp)
  then obtain msg where "islice_args start (Some end) (Some step) = Inl (TypeError msg)"
    by (auto simp: islice_args_def)
  then have "islice_next (IsliceStart xs start (Some end) (Some step)) =
              (Threw (TypeError msg), IsliceDone (0, xs))"
    by (simp add: islice_next_def)
  moreover from this have "islice_all (IsliceStart xs start (Some end) (Some step)) = Inl (TypeError msg)"
    by (subst islice_all.simps) simp
  ultimately show ?thesis
    using single by (simp add: islice_def islice_spread_def)
qed

theorem islice_invalid_args_witness:
  "islice_next (IsliceStart [1::int, 2, 3] 0 (Some (Finite 5)) (Some 0)) =
     (Threw (TypeError ''step param must be positive or undefined''), IsliceDone (0, [1, 2, 3]))
   \<and> islice_next (IsliceStart [1::int, 2, 3] (- 1) None None) =
     (Threw (TypeError ''k param must be non-negative or undefined''), IsliceDone (0, [1, 2, 3]))"
  using islice_invalid_args[of 0 "Finite 5" 0 "[1::int, 2, 3]" "- 1"]
  by (simp add: islice_next_def islice_args_def islice_check_def)

section \<open>Properties of groupBy\<close>

lemma advance_Nil:
  "it s = [] \<Longrightarrow> advance keyFunc s = (True, s\<lparr>currValue := None\<rparr>)"
  by (simp add: advance_def iter_next_def)

lemma advance_Cons:
  "it s = x # rest \<Longrightarrow>
   advance keyFunc s = (False, s\<lparr>it := rest, currValue := Some x, currKey := Some (keyFunc x)\<rparr>)"
  by (simp add: advance_def iter_next_def)









text \<open>
  Stale groupers. A grouper whose \<open>targetId\<close> is no longer the current \<open>id\<close>
  answers every pull with done. One that was never pulled leaves the shared variables
  alone. One that is suspended at its \<open>yield\<close> first pulls the shared iterator.
\<close>

lemma stale_pull_is_done:
  "targetId g \<noteq> id_obj s \<Longrightarrow> fst (grouper_next keyFunc g s) = None"
  by (cases "pc g"; cases "it s")
     (auto simp: grouper_next_def grouper_loop_def advance_Nil advance_Cons)

lemma stale_unstarted_pull_keeps_cursor:
  "pc g = GStart \<Longrightarrow> targetId g \<noteq> id_obj s \<Longrightarrow>
   grouper_next keyFunc g s = (None, g\<lparr>pc := GDone\<rparr>, s)"
  by (simp add: grouper_next_def grouper_loop_def)

lemma resumed_pull_advances_cursor:
  "pc g = GYield \<Longrightarrow> it (snd (snd (grouper_next keyFunc g s))) = tl (it s)"
  by (cases "it s")
     (auto simp: grouper_next_def grouper_loop_def advance_Nil advance_Cons)

text \<open>
  Claim C2 says that a pull of a grouper of an earlier group is answered with done and
  does not advance the shared iterator. On 0, 0, 1, 1: the outer generator yields the
  pair of group 0, its grouper \<open>g1\<close> yields one element, the outer generator is pulled
  again and yields the pair of group 1 with the grouper \<open>g2\<close>; the shared iterator then
  holds the second 1. The next pull of the stale \<open>g1\<close> is answered with done, but it
  has taken that element from the shared iterator, and \<open>g2\<close> yields one element
  instead of two.
\<close>

theorem groupBy_stale_pull_advances_cursor:
  "let keyFunc = (\<lambda>v :: nat. v);
       (r1, s1) = groupBy_next keyFunc (groupBy [0, 0, 1, 1]);
       g1 = \<lparr>targetId = 1, pc = GStart\<rparr>;
       (v1, g1', s2) = grouper_next keyFunc g1 s1;
       (r2, s3) = groupBy_next keyFunc s2;
       g2 = \<lparr>targetId = 2, pc = GStart\<rparr>;
       (v2, g1'', s4) = grouper_next keyFunc g1' s3
   in r1 = Some (Some 0, g1) \<and> v1 = Some (Some 0) \<and> r2 = Some (Some 1, g2)
      \<and> it s3 = [1] \<and> v2 = None \<and> it s4 = []
      \<and> fst (grouper_all keyFunc g2 s3) = [Some 1, Some 1]
      \<and> fst (grouper_all keyFunc g2 s4) = [Some 1]"
  by code_simp

section \<open>Properties of combinations and combinationsWithReplacement\<close>

text \<open>
  Index tuples are compared in the lexicographic order of lists
  (\<^theory_text>\<open>List_Lexorder\<close>): \<open>xs < ys\<close> compares the first position where
  the two tuples differ.
\<close>

lemma lex_append_eq_len:
  fixes p q :: "'a::order list"
  shows "length p = length q \<Longrightarrow> p @ xs < q @ ys \<longleftrightarrow> p < q \<or> (p = q \<and> xs < ys)"
  by (induction p q rule: list_induct2) auto

lemma lex_le_append_eq_len:
  fixes p q :: "'a::order list"
  shows "length p = length q \<Longrightarrow> p @ xs \<le> q @ ys \<longleftrightarrow> p < q \<or> (p = q \<and> xs \<le> ys)"
  by (induction p q rule: list_induct2) auto

lemma strict_min:
  "sorted_wrt (<) t \<Longrightarrow> \<forall>x\<in>set t. v \<le> x \<Longrightarrow> [v..<v + length t] \<le> t"
proof (induction t arbitrary: v)
  case Nil
  then show ?case by simp
next
  case (Cons c t)
  have "[Suc v..<Suc v + length t] \<le> t" if "c = v"
    using Cons.prems that by (intro Cons.IH) auto
  moreover have "v \<le> c" using Cons.prems by simp
  moreover have "[v..<v + length (c # t)] = v # [Suc v..<Suc v + length t]"
    by (simp add: upt_conv_Cons del: upt_Suc)
  ultimately show ?case
    by (auto simp del: upt_Suc)
qed

lemma strict_bound:
  "sorted_wrt (<) (c # t) \<Longrightarrow> \<forall>x\<in>set (c # t). x < n \<Longrightarrow> c + length (c # t) \<le> n"
proof (induction t arbitrary: c)
  case Nil
  then show ?case by simp
next
  case (Cons d t)
  have "d + length (d # t) \<le> n" using Cons.prems by (intro Cons.IH) auto
  moreover have "c < d" using Cons.prems by simp
  ultimately show ?case by simp
qed

lemma strict_max:
  "sorted_wrt (<) t \<Longrightarrow> \<forall>x\<in>set t. x < n \<Longrightarrow> t \<le> [n - length t..<n]"
proof (induction t)
  case Nil
  then show ?case by simp
next
  case (Cons c t)
  have b: "c + length (c # t) \<le> n" using Cons.prems by (rule strict_bound)
  have IH: "t \<le> [n - length t..<n]" using Cons.prems by (intro Cons.IH) auto
  have "[n - length (c # t)..<n] = (n - length (c # t)) # [n - length t..<n]"
    using b by (simp add: upt_conv_Cons Suc_diff_Suc del: upt_Suc)
  moreover have "c \<le> n - length (c # t)" using b by simp
  ultimately show ?case using IH by (auto simp del: upt_Suc)
qed

lemma weak_min: "\<forall>x\<in>set t. v \<le> x \<Longrightarrow> replicate (length t) (v::nat) \<le> t"
  by (induction t) auto

lemma weak_max: "\<forall>x\<in>set t. x \<le> v \<Longrightarrow> t \<le> replicate (length t) (v::nat)"
  by (induction t) auto

lemma comb_scan_None:
  "comb_scan n r ind k = None \<Longrightarrow> j < k \<Longrightarrow> ind ! j = j + n - r"
  by (induction k) (auto split: if_splits simp: less_Suc_eq)

lemma comb_scan_Some:
  "comb_scan n r ind k = Some i \<Longrightarrow>
     i < k \<and> ind ! i \<noteq> i + n - r \<and> (\<forall>j. i < j \<and> j < k \<longrightarrow> ind ! j = j + n - r)"
  by (induction k) (auto split: if_splits simp: less_Suc_eq)

lemma comb_reset_eq:
  "0 < j \<Longrightarrow> j \<le> r \<Longrightarrow> length ind = r \<Longrightarrow>
   comb_reset r ind j = take j ind @ [Suc (ind ! (j - 1))..<Suc (ind ! (j - 1)) + (r - j)]"
proof (induction r ind j rule: comb_reset.induct)
  case (1 r ind j)
  show ?case
  proof (cases "j < r")
    case False
    with 1 show ?thesis by (subst comb_reset.simps) simp
  next
    case True
    let ?v = "Suc (ind ! (j - 1))"
    let ?ind' = "ind[j := ?v]"
    have IH: "comb_reset r ?ind' (j + 1) =
        take (j + 1) ?ind' @ [Suc (?ind' ! j)..<Suc (?ind' ! j) + (r - (j + 1))]"
      using 1 True by (simp del: upt_Suc)
    have t: "take (j + 1) ?ind' = take j ind @ [?v]"
      using True 1(4) by (simp add: take_Suc_conv_app_nth)
    have v: "?ind' ! j = ?v" using True 1(4) by simp
    have a: "?v + (r - j) = Suc ?v + (r - (j + 1))" using True by arith
    have "[?v..<?v + (r - j)] = ?v # [Suc ?v..<?v + (r - j)]"
      by (rule upt_conv_Cons) (use True in arith)
    then have u: "[?v] @ [Suc ?v..<Suc ?v + (r - (j + 1))] = [?v..<?v + (r - j)]"
      by (simp only: a append_Cons append_Nil)
    have "comb_reset r ind j = comb_reset r ?ind' (j + 1)"
      by (subst comb_reset.simps) (simp only: True if_True Suc_eq_plus1)
    also have "\<dots> = take j ind @ ([?v] @ [Suc ?v..<Suc ?v + (r - (j + 1))])"
      by (simp only: IH t v append_assoc)
    finally show ?thesis by (simp only: u)
  qed
qed

lemma comb_step:
  assumes len: "length ind = r" and srt: "sorted_wrt (<) ind" and bnd: "\<forall>x\<in>set ind. x < n"
    and rn: "r \<le> n" and scan: "comb_scan n r ind r = Some i"
  defines "nx \<equiv> comb_reset r (ind[i := ind ! i + 1]) (i + 1)"
  shows "length nx = r \<and> sorted_wrt (<) nx \<and> (\<forall>x\<in>set nx. x < n)"
    and "ind < nx"
    and "\<And>t. length t = r \<Longrightarrow> sorted_wrt (<) t \<Longrightarrow> \<forall>x\<in>set t. x < n \<Longrightarrow> ind < t \<Longrightarrow> nx \<le> t"
proof -
  from comb_scan_Some[OF scan]
  have ir: "i < r" and ne: "ind ! i \<noteq> i + n - r"
    and mx: "\<And>j. i < j \<Longrightarrow> j < r \<Longrightarrow> ind ! j = j + n - r" by auto
  define a where "a = ind ! i"
  define pre where "pre = take i ind"
  define suf where "suf = drop (Suc i) ind"
  have ind: "ind = pre @ a # suf"
    unfolding pre_def a_def suf_def using ir len by (simp add: id_take_nth_drop)
  have lpre: "length pre = i" unfolding pre_def using ir len by simp
  have lsuf: "length suf = r - Suc i" unfolding suf_def using len by simp
  have suf: "suf = [Suc i + n - r..<n]"
  proof (rule nth_equalityI)
    show "length suf = length [Suc i + n - r..<n]" using lsuf rn ir by simp
  next
    fix p assume "p < length suf"
    then have p: "Suc i + p < r" using lsuf by simp
    then have "suf ! p = ind ! (Suc i + p)" unfolding suf_def using len by simp
    also have "\<dots> = Suc i + p + n - r" using p by (intro mx) simp_all
    also have "\<dots> = [Suc i + n - r..<n] ! p" using p rn by simp
    finally show "suf ! p = [Suc i + n - r..<n] ! p" .
  qed
  have an: "a < n" using bnd ir len unfolding a_def by simp
  have "a \<le> i + n - r"
  proof (cases "Suc i < r")
    case True
    then have "ind ! Suc i = Suc i + n - r" by (intro mx) simp_all
    moreover have "ind ! i < ind ! Suc i"
      using srt True len by (simp add: sorted_wrt_iff_nth_less)
    ultimately show ?thesis unfolding a_def using rn by simp
  next
    case False
    then have "Suc i = r" using ir by simp
    then show ?thesis using an by simp
  qed
  then have alt: "a < i + n - r" using ne unfolding a_def by simp
  have nx: "nx = pre @ [Suc a..<Suc a + (r - i)]"
  proof -
    let ?ind' = "ind[i := Suc a]"
    have "nx = take (Suc i) ?ind' @ [Suc (?ind' ! i)..<Suc (?ind' ! i) + (r - Suc i)]"
      unfolding nx_def a_def using ir len comb_reset_eq[of "Suc i" r "ind[i := Suc (ind ! i)]"]
      by simp
    moreover have "take (Suc i) ?ind' = pre @ [Suc a]"
      unfolding pre_def using ir len by (simp add: take_Suc_conv_app_nth)
    moreover have "?ind' ! i = Suc a" using ir len by simp
    moreover have "[Suc a] @ [Suc (Suc a)..<Suc (Suc a) + (r - Suc i)] = [Suc a..<Suc a + (r - i)]"
    proof -
      have e: "Suc a + (r - i) = Suc (Suc a) + (r - Suc i)" using ir by arith
      have "[Suc a..<Suc a + (r - i)] = Suc a # [Suc (Suc a)..<Suc a + (r - i)]"
        by (rule upt_conv_Cons) (use ir in arith)
      then show ?thesis by (simp only: e append_Cons append_Nil)
    qed
    ultimately show ?thesis by (simp only: append_assoc)
  qed
  have spre: "sorted_wrt (<) pre" and prea: "\<forall>x\<in>set pre. x < a"
    using srt unfolding ind by (auto simp: sorted_wrt_append)
  show "length nx = r \<and> sorted_wrt (<) nx \<and> (\<forall>x\<in>set nx. x < n)"
  proof (intro conjI)
    show "length nx = r" unfolding nx using lpre ir by simp
    show "sorted_wrt (<) nx"
      unfolding nx using spre prea by (auto simp: sorted_wrt_append)
    have "\<forall>x\<in>set pre. x < n" using bnd unfolding ind by simp
    moreover have "Suc a + (r - i) \<le> n" using alt ir rn by arith
    ultimately show "\<forall>x\<in>set nx. x < n" unfolding nx by auto
  qed
  have tail: "[Suc a..<Suc a + (r - i)] = Suc a # [Suc (Suc a)..<Suc a + (r - i)]"
    by (rule upt_conv_Cons) (use ir in arith)
  show "ind < nx"
    unfolding nx tail by (subst ind) (simp add: lex_append_eq_len)
  show "nx \<le> t" if lt: "length t = r" and st: "sorted_wrt (<) t" and bt: "\<forall>x\<in>set t. x < n"
    and less: "ind < t" for t
  proof -
    define tp where "tp = take i t"
    define tr where "tr = drop i t"
    have t: "t = tp @ tr" unfolding tp_def tr_def by simp
    have ltp: "length tp = i" unfolding tp_def using lt ir by simp
    have ltr: "length tr = r - i" unfolding tr_def using lt by simp
    from less have "pre < tp \<or> (pre = tp \<and> a # suf < tr)"
      unfolding t by (subst (asm) ind) (simp add: lex_append_eq_len lpre ltp)
    then show ?thesis
    proof
      assume "pre < tp"
      then show ?thesis unfolding nx t by (simp add: lex_le_append_eq_len lpre ltp)
    next
      assume c: "pre = tp \<and> a # suf < tr"
      then obtain b tr' where tr: "tr = b # tr'" by (cases tr) auto
      have str: "sorted_wrt (<) tr" and btr: "\<forall>x\<in>set tr. x < n"
        using st bt unfolding t by (auto simp: sorted_wrt_append)
      have "tr' \<le> [n - length tr'..<n]"
        using str btr unfolding tr by (intro strict_max) auto
      moreover have "n - length tr' = Suc i + n - r" using ltr ir rn unfolding tr by simp
      ultimately have "tr' \<le> suf" unfolding suf by simp
      with c have ab: "a < b" unfolding tr by auto
      have "\<forall>x\<in>set tr. Suc a \<le> x" using str ab unfolding tr by auto
      from strict_min[OF str this] have "[Suc a..<Suc a + (r - i)] \<le> tr" using ltr by simp
      with c show ?thesis unfolding nx t by (simp add: lex_le_append_eq_len lpre ltp)
    qed
  qed
qed

lemma finite_tuples:
  assumes "\<And>t. t \<in> S \<Longrightarrow> length t = r \<and> (\<forall>x\<in>set t. x < (n::nat))"
  shows "finite S"
proof (rule finite_subset)
  show "S \<subseteq> {t. set t \<subseteq> {..<n} \<and> length t = r}"
    using assms by auto
  show "finite {t :: nat list. set t \<subseteq> {..<n} \<and> length t = r}"
    by (rule finite_lists_length_eq) simp
qed

lemma comb_last:
  assumes len: "length ind = r" and rn: "r \<le> n" and scan: "comb_scan n r ind r = None"
  shows "ind = [n - r..<n]"
proof (rule nth_equalityI)
  show "length ind = length [n - r..<n]" using len rn by simp
next
  fix j assume "j < length ind"
  then have j: "j < r" using len by simp
  from comb_scan_None[OF scan j] show "ind ! j = [n - r..<n] ! j" using j rn by simp
qed

lemma comb_loop_from:
  assumes rn: "r \<le> n"
  shows "length ind = r \<Longrightarrow> sorted_wrt (<) ind \<Longrightarrow> \<forall>x\<in>set ind. x < n \<Longrightarrow>
    \<exists>out. comb_loop n r ind = Some out \<and> sorted_wrt (<) out
       \<and> set out = {t. length t = r \<and> sorted_wrt (<) t \<and> (\<forall>x\<in>set t. x < n) \<and> ind \<le> t}"
proof (induction "card {t. length t = r \<and> sorted_wrt (<) t \<and> (\<forall>x\<in>set t. x < n) \<and> ind < t}"
    arbitrary: ind rule: less_induct)
  case less
  let ?V = "\<lambda>t. length t = r \<and> sorted_wrt (<) t \<and> (\<forall>x\<in>set t. x < n)"
  show ?case
  proof (cases "comb_scan n r ind r")
    case None
    have ind: "ind = [n - r..<n]" using comb_last[OF less.prems(1) rn None] .
    have "{t. ?V t \<and> ind \<le> t} = {ind}"
    proof (intro equalityI subsetI)
      fix t assume "t \<in> {t. ?V t \<and> ind \<le> t}"
      then have V: "?V t" and le: "ind \<le> t" by auto
      from V have "t \<le> [n - length t..<n]" by (intro strict_max) auto
      with V have "t \<le> ind" unfolding ind by simp
      with le show "t \<in> {ind}" by simp
    next
      fix t assume "t \<in> {ind}"
      then show "t \<in> {t. ?V t \<and> ind \<le> t}" using less.prems by simp
    qed
    moreover have "comb_loop n r ind = Some [ind]"
      by (subst comb_loop.simps) (simp add: None)
    ultimately show ?thesis by (simp add: conj_assoc)
  next
    case (Some i)
    define nx where "nx = comb_reset r (ind[i := ind ! i + 1]) (i + 1)"
    note step = comb_step[OF less.prems rn Some, folded nx_def]
    have Vnx: "?V nx" and lt: "ind < nx" using step(1,2) by auto
    have least: "\<And>t. ?V t \<Longrightarrow> ind < t \<Longrightarrow> nx \<le> t" using step(3) by blast
    have "{t. ?V t \<and> nx < t} \<subset> {t. ?V t \<and> ind < t}"
      using Vnx lt by force
    then have "card {t. ?V t \<and> nx < t} < card {t. ?V t \<and> ind < t}"
      by (intro psubset_card_mono finite_tuples[of _ r n]) auto
    then have "card {t. length t = r \<and> sorted_wrt (<) t \<and> (\<forall>x\<in>set t. x < n) \<and> nx < t}
        < card {t. length t = r \<and> sorted_wrt (<) t \<and> (\<forall>x\<in>set t. x < n) \<and> ind < t}"
      by (simp only: conj_assoc)
    from less.hyps[OF this] Vnx
    obtain out where out: "comb_loop n r nx = Some out" "sorted_wrt (<) out"
      "set out = {t. ?V t \<and> nx \<le> t}" by (auto simp only: conj_assoc)
    have "set (ind # out) = {t. ?V t \<and> ind \<le> t}"
    proof (intro equalityI subsetI)
      fix t assume "t \<in> set (ind # out)"
      then show "t \<in> {t. ?V t \<and> ind \<le> t}"
        using out(3) less.prems lt by auto
    next
      fix t assume "t \<in> {t. ?V t \<and> ind \<le> t}"
      then have V: "?V t" and le: "ind \<le> t" by auto
      show "t \<in> set (ind # out)"
      proof (cases "t = ind")
        case False
        with le have "ind < t" by simp
        from least[OF V this] V show ?thesis using out(3) by simp
      qed simp
    qed
    moreover have "sorted_wrt (<) (ind # out)"
      using out(2,3) lt by auto
    moreover have "comb_loop n r ind = Some (ind # out)"
      by (subst comb_loop.simps) (use out(1)[unfolded nx_def] in \<open>simp add: Some\<close>)
    ultimately show ?thesis by (simp add: conj_assoc)
  qed
qed

lemma comb_loop_initial:
  assumes rn: "r \<le> n"
  shows "\<exists>out. comb_loop n r [0..<r] = Some out \<and> sorted_wrt (<) out
       \<and> set out = {t. length t = r \<and> sorted_wrt (<) t \<and> (\<forall>x\<in>set t. x < n)}"
proof -
  have "[0..<r] \<le> t" if "length t = r" "sorted_wrt (<) t" for t :: "nat list"
    using strict_min[of t 0] that by simp
  then have "{t. length t = r \<and> sorted_wrt (<) t \<and> (\<forall>x\<in>set t. x < n) \<and> [0..<r] \<le> t}
      = {t. length t = r \<and> sorted_wrt (<) t \<and> (\<forall>x\<in>set t. x < n)}" by auto
  moreover have "length [0..<r] = r" "sorted_wrt (<) [0..<r]" "\<forall>x\<in>set [0..<r]. x < n"
    using rn by (auto simp: sorted_wrt_upt)
  ultimately show ?thesis using comb_loop_from[OF rn, of "[0..<r]"] by simp
qed

lemma card_strict_tuples:
  "card {t :: nat list. length t = r \<and> sorted_wrt (<) t \<and> (\<forall>x\<in>set t. x < n)} = n choose r"
proof -
  let ?V = "{t :: nat list. length t = r \<and> sorted_wrt (<) t \<and> (\<forall>x\<in>set t. x < n)}"
  let ?S = "{A. A \<subseteq> {..<n} \<and> card A = r}"
  have fin: "finite A" if "A \<in> ?S" for A
    using that by (auto intro: finite_subset)
  have "?V = sorted_list_of_set ` ?S"
  proof (intro equalityI subsetI)
    fix t assume "t \<in> ?V"
    then have t: "length t = r" "sorted_wrt (<) t" "\<forall>x\<in>set t. x < n" by auto
    then have "sorted t" "distinct t" by (auto simp: strict_sorted_iff)
    then have "sorted_list_of_set (set t) = t" "card (set t) = length t"
      by (auto simp: sorted_list_of_set.idem_if_sorted_distinct distinct_card)
    moreover have "set t \<subseteq> {..<n}" using t by auto
    ultimately have "set t \<in> ?S" "t = sorted_list_of_set (set t)" using t by auto
    then show "t \<in> sorted_list_of_set ` ?S" by (rule rev_image_eqI)
  next
    fix t assume "t \<in> sorted_list_of_set ` ?S"
    then obtain A where A: "A \<in> ?S" "t = sorted_list_of_set A" by auto
    with fin[OF A(1)] show "t \<in> ?V"
      by (auto simp: strict_sorted_list_of_set length_sorted_list_of_set)
  qed
  moreover have "inj_on sorted_list_of_set ?S"
  proof (rule inj_onI)
    fix A B :: "nat set" assume "A \<in> ?S" "B \<in> ?S" "sorted_list_of_set A = sorted_list_of_set B"
    then show "A = B" using fin by (metis set_sorted_list_of_set)
  qed
  ultimately have "card ?V = card ?S" by (simp add: card_image)
  also have "\<dots> = n choose r" using n_subsets[of "{..<n}" r] by simp
  finally show ?thesis .
qed

lemma cwr_scan_None:
  "cwr_scan n ind k = None \<Longrightarrow> j < k \<Longrightarrow> ind ! j = n - 1"
  by (induction k) (auto split: if_splits simp: less_Suc_eq)

lemma cwr_scan_Some:
  "cwr_scan n ind k = Some i \<Longrightarrow>
     i < k \<and> ind ! i \<noteq> n - 1 \<and> (\<forall>j. i < j \<and> j < k \<longrightarrow> ind ! j = n - 1)"
  by (induction k) (auto split: if_splits simp: less_Suc_eq)

lemma cwr_reset_eq:
  "0 < j \<Longrightarrow> j \<le> r \<Longrightarrow> length ind = r \<Longrightarrow>
   cwr_reset r ind j = take j ind @ replicate (r - j) (ind ! (j - 1))"
proof (induction r ind j rule: cwr_reset.induct)
  case (1 r ind j)
  show ?case
  proof (cases "j < r")
    case False
    with 1 show ?thesis by (subst cwr_reset.simps) simp
  next
    case True
    let ?v = "ind ! (j - 1)"
    let ?ind' = "ind[j := ?v]"
    have IH: "cwr_reset r ?ind' (j + 1) =
        take (j + 1) ?ind' @ replicate (r - (j + 1)) (?ind' ! j)"
      using 1 True by simp
    have t: "take (j + 1) ?ind' = take j ind @ [?v]"
      using True 1(4) by (simp add: take_Suc_conv_app_nth)
    have v: "?ind' ! j = ?v" using True 1(4) by simp
    have u: "[?v] @ replicate (r - (j + 1)) ?v = replicate (r - j) ?v"
      using True by (simp add: Suc_diff_Suc flip: replicate_Suc)
    have "cwr_reset r ind j = cwr_reset r ?ind' (j + 1)"
      by (subst cwr_reset.simps) (simp only: True if_True)
    also have "\<dots> = take j ind @ ([?v] @ replicate (r - (j + 1)) ?v)"
      by (simp only: IH t v append_assoc)
    finally show ?thesis by (simp only: u)
  qed
qed

lemma cwr_step:
  assumes len: "length ind = r" and srt: "sorted ind" and bnd: "\<forall>x\<in>set ind. x < n"
    and scan: "cwr_scan n ind r = Some i"
  defines "nx \<equiv> cwr_reset r (ind[i := ind ! i + 1]) (i + 1)"
  shows "length nx = r \<and> sorted nx \<and> (\<forall>x\<in>set nx. x < n)"
    and "ind < nx"
    and "\<And>t. length t = r \<Longrightarrow> sorted t \<Longrightarrow> \<forall>x\<in>set t. x < n \<Longrightarrow> ind < t \<Longrightarrow> nx \<le> t"
proof -
  from cwr_scan_Some[OF scan]
  have ir: "i < r" and ne: "ind ! i \<noteq> n - 1"
    and mx: "\<And>j. i < j \<Longrightarrow> j < r \<Longrightarrow> ind ! j = n - 1" by auto
  define a where "a = ind ! i"
  define pre where "pre = take i ind"
  define suf where "suf = drop (Suc i) ind"
  have ind: "ind = pre @ a # suf"
    unfolding pre_def a_def suf_def using ir len by (simp add: id_take_nth_drop)
  have lpre: "length pre = i" unfolding pre_def using ir len by simp
  have lsuf: "length suf = r - Suc i" unfolding suf_def using len by simp
  have suf: "suf = replicate (r - Suc i) (n - 1)"
  proof (rule nth_equalityI)
    show "length suf = length (replicate (r - Suc i) (n - 1))" using lsuf by simp
  next
    fix p assume "p < length suf"
    then have p: "Suc i + p < r" using lsuf by simp
    then have "suf ! p = ind ! (Suc i + p)" unfolding suf_def using len by simp
    also have "\<dots> = n - 1" using p by (intro mx) simp_all
    finally show "suf ! p = replicate (r - Suc i) (n - 1) ! p" using p by simp
  qed
  have an: "a < n" using bnd ir len unfolding a_def by simp
  then have alt: "Suc a < n" using ne unfolding a_def by arith
  have nx: "nx = pre @ replicate (r - i) (Suc a)"
  proof -
    let ?ind' = "ind[i := Suc a]"
    have "nx = take (Suc i) ?ind' @ replicate (r - Suc i) (?ind' ! i)"
      unfolding nx_def a_def using ir len cwr_reset_eq[of "Suc i" r "ind[i := Suc (ind ! i)]"]
      by simp
    moreover have "take (Suc i) ?ind' = pre @ [Suc a]"
      unfolding pre_def using ir len by (simp add: take_Suc_conv_app_nth)
    moreover have "?ind' ! i = Suc a" using ir len by simp
    moreover have "[Suc a] @ replicate (r - Suc i) (Suc a) = replicate (r - i) (Suc a)"
      using ir by (simp add: Suc_diff_Suc flip: replicate_Suc)
    ultimately show ?thesis by (simp only: append_assoc)
  qed
  have spre: "sorted pre" and prea: "\<forall>x\<in>set pre. x \<le> a"
    using srt unfolding ind by (auto simp: sorted_append)
  show "length nx = r \<and> sorted nx \<and> (\<forall>x\<in>set nx. x < n)"
  proof (intro conjI)
    show "length nx = r" unfolding nx using lpre ir by simp
    show "sorted nx"
      unfolding nx using spre prea by (auto simp: sorted_append)
    have "\<forall>x\<in>set pre. x < n" using bnd unfolding ind by simp
    then show "\<forall>x\<in>set nx. x < n" unfolding nx using alt by auto
  qed
  have tail: "replicate (r - i) (Suc a) = Suc a # replicate (r - Suc i) (Suc a)"
    using ir by (simp add: Suc_diff_Suc flip: replicate_Suc)
  show "ind < nx"
    unfolding nx tail by (subst ind) (simp add: lex_append_eq_len)
  show "nx \<le> t" if lt: "length t = r" and st: "sorted t" and bt: "\<forall>x\<in>set t. x < n"
    and less: "ind < t" for t
  proof -
    define tp where "tp = take i t"
    define tr where "tr = drop i t"
    have t: "t = tp @ tr" unfolding tp_def tr_def by simp
    have ltp: "length tp = i" unfolding tp_def using lt ir by simp
    have ltr: "length tr = r - i" unfolding tr_def using lt by simp
    from less have "pre < tp \<or> (pre = tp \<and> a # suf < tr)"
      unfolding t by (subst (asm) ind) (simp add: lex_append_eq_len lpre ltp)
    then show ?thesis
    proof
      assume "pre < tp"
      then show ?thesis unfolding nx t by (simp add: lex_le_append_eq_len lpre ltp)
    next
      assume c: "pre = tp \<and> a # suf < tr"
      then obtain b tr' where tr: "tr = b # tr'" by (cases tr) auto
      have str: "sorted tr" and btr: "\<forall>x\<in>set tr. x < n"
        using st bt unfolding t by (auto simp: sorted_append)
      have "\<forall>x\<in>set tr'. x \<le> n - 1" using btr unfolding tr by auto
      from weak_max[OF this] have "tr' \<le> replicate (length tr') (n - 1)" .
      moreover have "length tr' = r - Suc i" using ltr unfolding tr by simp
      ultimately have "tr' \<le> suf" unfolding suf by simp
      with c have ab: "a < b" unfolding tr by auto
      have "\<forall>x\<in>set tr. Suc a \<le> x" using str ab unfolding tr by auto
      from weak_min[OF this] have "replicate (r - i) (Suc a) \<le> tr" using ltr by simp
      with c show ?thesis unfolding nx t by (simp add: lex_le_append_eq_len lpre ltp)
    qed
  qed
qed

lemma cwr_last:
  assumes len: "length ind = r" and scan: "cwr_scan n ind r = None"
  shows "ind = replicate r (n - 1)"
proof (rule nth_equalityI)
  show "length ind = length (replicate r (n - 1))" using len by simp
next
  fix j assume "j < length ind"
  then have j: "j < r" using len by simp
  from cwr_scan_None[OF scan j] show "ind ! j = replicate r (n - 1) ! j" using j by simp
qed

lemma cwr_loop_from:
  "length ind = r \<Longrightarrow> sorted ind \<Longrightarrow> \<forall>x\<in>set ind. x < n \<Longrightarrow>
    \<exists>out. cwr_loop n r ind = Some out \<and> sorted_wrt (<) out
       \<and> set out = {t. length t = r \<and> sorted t \<and> (\<forall>x\<in>set t. x < n) \<and> ind \<le> t}"
proof (induction "card {t. length t = r \<and> sorted t \<and> (\<forall>x\<in>set t. x < n) \<and> ind < t}"
    arbitrary: ind rule: less_induct)
  case less
  let ?V = "\<lambda>t. length t = r \<and> sorted t \<and> (\<forall>x\<in>set t. x < n)"
  show ?case
  proof (cases "cwr_scan n ind r")
    case None
    have ind: "ind = replicate r (n - 1)" using cwr_last[OF less.prems(1) None] .
    have "{t. ?V t \<and> ind \<le> t} = {ind}"
    proof (intro equalityI subsetI)
      fix t assume "t \<in> {t. ?V t \<and> ind \<le> t}"
      then have V: "?V t" and le: "ind \<le> t" by auto
      from V have "\<forall>x\<in>set t. x \<le> n - 1" by auto
      from weak_max[OF this] V have "t \<le> ind" unfolding ind by simp
      with le show "t \<in> {ind}" by simp
    next
      fix t assume "t \<in> {ind}"
      then show "t \<in> {t. ?V t \<and> ind \<le> t}" using less.prems by simp
    qed
    moreover have "cwr_loop n r ind = Some [ind]"
      by (subst cwr_loop.simps) (simp add: None)
    ultimately show ?thesis by (simp add: conj_assoc)
  next
    case (Some i)
    define nx where "nx = cwr_reset r (ind[i := ind ! i + 1]) (i + 1)"
    note step = cwr_step[OF less.prems Some, folded nx_def]
    have Vnx: "?V nx" and lt: "ind < nx" using step(1,2) by auto
    have least: "\<And>t. ?V t \<Longrightarrow> ind < t \<Longrightarrow> nx \<le> t" using step(3) by blast
    have "{t. ?V t \<and> nx < t} \<subset> {t. ?V t \<and> ind < t}"
      using Vnx lt by force
    then have "card {t. ?V t \<and> nx < t} < card {t. ?V t \<and> ind < t}"
      by (intro psubset_card_mono finite_tuples[of _ r n]) auto
    then have "card {t. length t = r \<and> sorted t \<and> (\<forall>x\<in>set t. x < n) \<and> nx < t}
        < card {t. length t = r \<and> sorted t \<and> (\<forall>x\<in>set t. x < n) \<and> ind < t}"
      by (simp only: conj_assoc)
    from less.hyps[OF this] Vnx
    obtain out where out: "cwr_loop n r nx = Some out" "sorted_wrt (<) out"
      "set out = {t. ?V t \<and> nx \<le> t}" by (auto simp only: conj_assoc)
    have "set (ind # out) = {t. ?V t \<and> ind \<le> t}"
    proof (intro equalityI subsetI)
      fix t assume "t \<in> set (ind # out)"
      then show "t \<in> {t. ?V t \<and> ind \<le> t}"
        using out(3) less.prems lt by auto
    next
      fix t assume "t \<in> {t. ?V t \<and> ind \<le> t}"
      then have V: "?V t" and le: "ind \<le> t" by auto
      show "t \<in> set (ind # out)"
      proof (cases "t = ind")
        case False
        with le have "ind < t" by simp
        from least[OF V this] V show ?thesis using out(3) by simp
      qed simp
    qed
    moreover have "sorted_wrt (<) (ind # out)"
      using out(2,3) lt by auto
    moreover have "cwr_loop n r ind = Some (ind # out)"
      by (subst cwr_loop.simps) (use out(1)[unfolded nx_def] in \<open>simp add: Some\<close>)
    ultimately show ?thesis by (simp add: conj_assoc)
  qed
qed

lemma cwr_loop_initial:
  assumes "n = 0 \<Longrightarrow> r = 0"
  shows "\<exists>out. cwr_loop n r (replicate r 0) = Some out \<and> sorted_wrt (<) out
       \<and> set out = {t. length t = r \<and> sorted t \<and> (\<forall>x\<in>set t. x < n)}"
proof -
  have "replicate r 0 \<le> t" if "length t = r" for t :: "nat list"
    using weak_min[of t 0] that by simp
  then have "{t. length t = r \<and> sorted t \<and> (\<forall>x\<in>set t. x < n) \<and> replicate r 0 \<le> t}
      = {t. length t = r \<and> sorted t \<and> (\<forall>x\<in>set t. x < n)}" by auto
  moreover have "length (replicate r (0::nat)) = r" "sorted (replicate r (0::nat))"
    "\<forall>x\<in>set (replicate r 0). x < n"
    using assms by (auto simp: sorted_replicate)
  ultimately show ?thesis using cwr_loop_from[of "replicate r 0" r n] by simp
qed

lemma weak_tuples_Suc:
  "{t :: nat list. length t = Suc r \<and> sorted t \<and> (\<forall>x\<in>set t. x < Suc n)} =
     Cons 0 ` {t. length t = r \<and> sorted t \<and> (\<forall>x\<in>set t. x < Suc n)}
     \<union> map Suc ` {t. length t = Suc r \<and> sorted t \<and> (\<forall>x\<in>set t. x < n)}"
  (is "?L = ?A \<union> ?B")
proof (intro equalityI subsetI)
  fix t assume "t \<in> ?L"
  then have t: "length t = Suc r" "sorted t" "\<forall>x\<in>set t. x < Suc n" by auto
  then obtain c t' where ct: "t = c # t'" by (cases t) auto
  show "t \<in> ?A \<union> ?B"
  proof (cases "c = 0")
    case True
    then have "t \<in> ?A" using t ct by auto
    then show ?thesis by simp
  next
    case False
    have pos: "\<forall>x\<in>set t. 0 < x" using t(2) False unfolding ct by auto
    let ?u = "map (\<lambda>x. x - 1) t"
    have "map Suc ?u = t" using pos by (simp add: map_idI)
    moreover have "sorted ?u"
      using t(2) by (simp add: sorted_map) (erule sorted_wrt_mono_rel[rotated], simp)
    moreover have "\<forall>x\<in>set ?u. x < n" using t(3) pos by fastforce
    ultimately have "t \<in> ?B" using t(1)
      by (intro image_eqI[where x = ?u]) simp_all
    then show ?thesis by simp
  qed
next
  fix t assume "t \<in> ?A \<union> ?B"
  then show "t \<in> ?L"
    by (auto simp: sorted_map intro: sorted_wrt_mono_rel[rotated])
qed

lemma card_weak_tuples:
  "card {t :: nat list. length t = r \<and> sorted t \<and> (\<forall>x\<in>set t. x < n)} = (n + r - 1) choose r"
proof (induction "n + r" arbitrary: n r rule: less_induct)
  case less
  show ?case
  proof (cases r)
    case 0
    have "{t :: nat list. length t = 0 \<and> sorted t \<and> (\<forall>x\<in>set t. x < n)} = {[]}" by auto
    then show ?thesis using 0 by simp
  next
    case (Suc r')
    show ?thesis
    proof (cases n)
      case 0
      have "{t :: nat list. length t = Suc r' \<and> sorted t \<and> (\<forall>x\<in>set t. x < 0)} = {}"
        by (auto simp: length_Suc_conv)
      then show ?thesis using 0 Suc by (simp add: binomial_eq_0)
    next
      case (Suc n')
      let ?A = "{t :: nat list. length t = r' \<and> sorted t \<and> (\<forall>x\<in>set t. x < Suc n')}"
      let ?B = "{t :: nat list. length t = Suc r' \<and> sorted t \<and> (\<forall>x\<in>set t. x < n')}"
      have fA: "finite ?A" by (rule finite_tuples[of _ r' "Suc n'"]) auto
      have fB: "finite ?B" by (rule finite_tuples[of _ "Suc r'" n']) auto
      have cA: "card ?A = (Suc n' + r' - 1) choose r'"
        using less[of "Suc n'" r'] Suc \<open>r = Suc r'\<close> by simp
      have cB: "card ?B = (n' + Suc r' - 1) choose Suc r'"
        using less[of n' "Suc r'"] Suc \<open>r = Suc r'\<close> by simp
      have disj: "Cons 0 ` ?A \<inter> map Suc ` ?B = {}" by auto
      have "card (Cons 0 ` ?A \<union> map Suc ` ?B) = card (Cons 0 ` ?A) + card (map Suc ` ?B)"
        using fA fB disj by (intro card_Un_disjoint) auto
      also have "card (Cons 0 ` ?A) = card ?A" by (intro card_image) (simp add: inj_on_def)
      also have "card (map Suc ` ?B) = card ?B" by (intro card_image) (simp add: inj_on_def)
      finally have "card (Cons 0 ` ?A \<union> map Suc ` ?B) = (n' + r' choose r') + (n' + r' choose Suc r')"
        using cA cB by simp
      then show ?thesis
        unfolding Suc \<open>r = Suc r'\<close> weak_tuples_Suc by simp
    qed
  qed
qed

lemma map_array_get:
  "\<forall>i\<in>set ind. i < length saved \<Longrightarrow>
   map (\<lambda>i. array_get saved i) ind = map (\<lambda>i. Some (saved ! i)) ind"
  by (simp add: array_get_def)

lemma map_map_array_get:
  "\<forall>ind\<in>set idxs. \<forall>i\<in>set ind. i < length saved \<Longrightarrow>
   map (\<lambda>ind. map (\<lambda>i. array_get saved i) ind) idxs
     = map (\<lambda>ind. map (\<lambda>i. Some (saved ! i)) ind) idxs"
  by (simp add: map_array_get)

lemma length_strict_sorted:
  fixes out :: "nat list list"
  shows "sorted_wrt (<) out \<Longrightarrow> length out = card (set out)"
  by (simp add: strict_sorted_iff distinct_card)

text \<open>
  Claim C3. For a finite source of length \<open>n\<close> and \<open>0 \<le> r \<le> n\<close>,
  \<open>combinations(source, r)\<close> terminates and yields exactly \<open>n choose r\<close> tuples. Each
  tuple holds the elements at the positions of an index tuple that is strictly
  increasing; the index tuples come in strictly ascending lexicographic order, and they
  are all the strictly increasing \<open>r\<close>-tuples over the positions below \<open>n\<close>. For
  \<open>r > n\<close> the generator returns at once, with no tuple and no error.
\<close>

theorem combinations_spec:
  "(r \<le> length saved \<longrightarrow>
      (\<exists>idxs. comb_loop (length saved) r [0..<r] = Some idxs
         \<and> combinations saved r = Some (map (\<lambda>ind. map (\<lambda>i. Some (saved ! i)) ind) idxs)
         \<and> length idxs = length saved choose r
         \<and> sorted_wrt (<) idxs
         \<and> set idxs = {ind. length ind = r \<and> sorted_wrt (<) ind
                         \<and> (\<forall>i\<in>set ind. i < length saved)}))
   \<and> (length saved < r \<longrightarrow> combinations saved r = Some [])"
proof (intro conjI impI)
  assume rn: "r \<le> length saved"
  from comb_loop_initial[OF rn] obtain idxs where
    loop: "comb_loop (length saved) r [0..<r] = Some idxs" and srt: "sorted_wrt (<) idxs"
    and set: "set idxs = {ind. length ind = r \<and> sorted_wrt (<) ind
                         \<and> (\<forall>i\<in>set ind. i < length saved)}"
    by blast
  have "length idxs = length saved choose r"
    using length_strict_sorted[OF srt] card_strict_tuples[of r "length saved"] set by simp
  moreover have "combinations saved r = Some (map (\<lambda>ind. map (\<lambda>i. Some (saved ! i)) ind) idxs)"
  proof -
    have "\<forall>ind\<in>set idxs. \<forall>i\<in>set ind. i < length saved" using set by simp
    from map_map_array_get[OF this] show ?thesis
      using rn loop by (simp add: combinations_def)
  qed
  ultimately show "\<exists>idxs. comb_loop (length saved) r [0..<r] = Some idxs
         \<and> combinations saved r = Some (map (\<lambda>ind. map (\<lambda>i. Some (saved ! i)) ind) idxs)
         \<and> length idxs = length saved choose r
         \<and> sorted_wrt (<) idxs
         \<and> set idxs = {ind. length ind = r \<and> sorted_wrt (<) ind
                         \<and> (\<forall>i\<in>set ind. i < length saved)}"
    using loop srt set by blast
next
  assume "length saved < r"
  then show "combinations saved r = Some []" by (simp add: combinations_def)
qed

theorem combinations_spec_witness:
  "(\<exists>idxs. combinations [1 :: nat, 2, 3, 4, 5] 3 =
        Some (map (\<lambda>ind. map (\<lambda>i. Some ([1, 2, 3, 4, 5] ! i)) ind) idxs) \<and> length idxs = 10)
   \<and> combinations [1 :: nat, 2] 3 = Some []"
proof -
  have c: "length [1 :: nat, 2, 3, 4, 5] choose 3 = 10" by code_simp
  have le: "3 \<le> length [1 :: nat, 2, 3, 4, 5]" and gt: "length [1 :: nat, 2] < 3" by simp_all
  from combinations_spec[of 3 "[1 :: nat, 2, 3, 4, 5]"] le obtain idxs where
    "combinations [1 :: nat, 2, 3, 4, 5] 3 =
        Some (map (\<lambda>ind. map (\<lambda>i. Some ([1, 2, 3, 4, 5] ! i)) ind) idxs)"
    "length idxs = length [1 :: nat, 2, 3, 4, 5] choose 3" by blast
  moreover from combinations_spec[of 3 "[1 :: nat, 2]"] gt
  have "combinations [1 :: nat, 2] 3 = Some []" by blast
  ultimately show ?thesis unfolding c by blast
qed

text \<open>
  Claim C4. For a source of length \<open>n > 0\<close> and any \<open>r\<close>,
  \<open>combinationsWithReplacement(source, r)\<close> terminates and yields exactly
  \<open>(n + r - 1) choose r\<close> tuples, in strictly ascending lexicographic order of their
  index tuples, which are all the non-decreasing \<open>r\<close>-tuples over the positions below
  \<open>n\<close>. For an empty source it yields the one empty tuple when \<open>r = 0\<close> and nothing
  when \<open>r > 0\<close>. On \<open>ABCD\<close> with \<open>r = 2\<close> it yields
  AA AB AC AD BB BC BD CC CD DD, in that order.
\<close>

theorem combinationsWithReplacement_spec:
  "(0 < length saved \<longrightarrow>
      (\<exists>idxs. cwr_loop (length saved) r (replicate r 0) = Some idxs
         \<and> combinationsWithReplacement saved r =
             Some (map (\<lambda>ind. map (\<lambda>i. Some (saved ! i)) ind) idxs)
         \<and> length idxs = (length saved + r - 1) choose r
         \<and> sorted_wrt (<) idxs
         \<and> set idxs = {ind. length ind = r \<and> sorted ind \<and> (\<forall>i\<in>set ind. i < length saved)}))
   \<and> combinationsWithReplacement ([] :: 'a list) 0 = Some [[]]
   \<and> (0 < r \<longrightarrow> combinationsWithReplacement ([] :: 'a list) r = Some [])
   \<and> combinationsWithReplacement ''ABCD'' 2 =
        Some [[Some CHR ''A'', Some CHR ''A''], [Some CHR ''A'', Some CHR ''B''],
              [Some CHR ''A'', Some CHR ''C''], [Some CHR ''A'', Some CHR ''D''],
              [Some CHR ''B'', Some CHR ''B''], [Some CHR ''B'', Some CHR ''C''],
              [Some CHR ''B'', Some CHR ''D''], [Some CHR ''C'', Some CHR ''C''],
              [Some CHR ''C'', Some CHR ''D''], [Some CHR ''D'', Some CHR ''D'']]"
proof (intro conjI impI)
  assume n: "0 < length saved"
  then have "length saved = 0 \<Longrightarrow> r = 0" by simp
  from cwr_loop_initial[OF this] obtain idxs where
    loop: "cwr_loop (length saved) r (replicate r 0) = Some idxs" and srt: "sorted_wrt (<) idxs"
    and set: "set idxs = {ind. length ind = r \<and> sorted ind \<and> (\<forall>i\<in>set ind. i < length saved)}"
    by blast
  have "length idxs = (length saved + r - 1) choose r"
    using length_strict_sorted[OF srt] card_weak_tuples[of r "length saved"] set by simp
  moreover have "combinationsWithReplacement saved r =
      Some (map (\<lambda>ind. map (\<lambda>i. Some (saved ! i)) ind) idxs)"
  proof -
    have "\<forall>ind\<in>set idxs. \<forall>i\<in>set ind. i < length saved" using set by simp
    from map_map_array_get[OF this] show ?thesis
      using n loop by (simp add: combinationsWithReplacement_def)
  qed
  ultimately show "\<exists>idxs. cwr_loop (length saved) r (replicate r 0) = Some idxs
         \<and> combinationsWithReplacement saved r =
             Some (map (\<lambda>ind. map (\<lambda>i. Some (saved ! i)) ind) idxs)
         \<and> length idxs = (length saved + r - 1) choose r
         \<and> sorted_wrt (<) idxs
         \<and> set idxs = {ind. length ind = r \<and> sorted ind \<and> (\<forall>i\<in>set ind. i < length saved)}"
    using loop srt set by blast
next
  show "combinationsWithReplacement ([] :: 'a list) 0 = Some [[]]"
    by (simp add: combinationsWithReplacement_def cwr_loop.simps)
next
  assume "0 < r"
  then show "combinationsWithReplacement ([] :: 'a list) r = Some []"
    by (simp add: combinationsWithReplacement_def)
next
  show "combinationsWithReplacement ''ABCD'' 2 =
        Some [[Some CHR ''A'', Some CHR ''A''], [Some CHR ''A'', Some CHR ''B''],
              [Some CHR ''A'', Some CHR ''C''], [Some CHR ''A'', Some CHR ''D''],
              [Some CHR ''B'', Some CHR ''B''], [Some CHR ''B'', Some CHR ''C''],
              [Some CHR ''B'', Some CHR ''D''], [Some CHR ''C'', Some CHR ''C''],
              [Some CHR ''C'', Some CHR ''D''], [Some CHR ''D'', Some CHR ''D'']]"
    by code_simp
qed

theorem combinationsWithReplacement_spec_witness:
  "(\<exists>idxs. combinationsWithReplacement ''AB'' 2 =
        Some (map (\<lambda>ind. map (\<lambda>i. Some (''AB'' ! i)) ind) idxs) \<and> length idxs = 3)
   \<and> combinationsWithReplacement ([] :: char list) 1 = Some []"
proof -
  have c: "(length ''AB'' + 2 - 1) choose 2 = 3" by code_simp
  have pos: "0 < length ''AB''" and r: "0 < (1 :: nat)" by simp_all
  from combinationsWithReplacement_spec[of "''AB''" 2] pos obtain idxs where
    "combinationsWithReplacement ''AB'' 2 =
        Some (map (\<lambda>ind. map (\<lambda>i. Some (''AB'' ! i)) ind) idxs)"
    "length idxs = (length ''AB'' + 2 - 1) choose 2" by blast
  moreover from combinationsWithReplacement_spec[of "[] :: char list" 1] r
  have "combinationsWithReplacement ([] :: char list) 1 = Some []" by blast
  ultimately show ?thesis unfolding c by blast
qed

text \<open>
  Claim C9. At every \<open>yield\<close> of \<open>combinations\<close> over a snapshot of length \<open>n\<close>
  (with \<open>r \<le> n\<close>, where the loop is entered) the array \<open>indicies\<close> has \<open>r\<close>
  elements, is strictly increasing and holds only positions below \<open>n\<close>; at every
  \<open>yield\<close> of \<open>combinationsWithReplacement\<close> (where its loop is entered: \<open>n > 0\<close>
  or \<open>r = 0\<close>) it has \<open>r\<close> elements, is non-decreasing and holds only positions
  below \<open>n\<close>.
\<close>

theorem index_tuple_invariants:
  "(r \<le> length saved \<longrightarrow>
      (\<exists>idxs. comb_loop (length saved) r [0..<r] = Some idxs
         \<and> combinations saved r = Some (map (\<lambda>ind. map (\<lambda>i. array_get saved i) ind) idxs)
         \<and> (\<forall>ind\<in>set idxs. length ind = r \<and> sorted_wrt (<) ind
               \<and> (\<forall>i\<in>set ind. i < length saved))))
   \<and> ((length saved = 0 \<longrightarrow> r = 0) \<longrightarrow>
      (\<exists>idxs. cwr_loop (length saved) r (replicate r 0) = Some idxs
         \<and> combinationsWithReplacement saved r =
             Some (map (\<lambda>ind. map (\<lambda>i. array_get saved i) ind) idxs)
         \<and> (\<forall>ind\<in>set idxs. length ind = r \<and> sorted ind \<and> (\<forall>i\<in>set ind. i < length saved))))"
proof (intro conjI impI)
  assume rn: "r \<le> length saved"
  from comb_loop_initial[OF rn] obtain idxs where
    "comb_loop (length saved) r [0..<r] = Some idxs"
    "set idxs = {ind. length ind = r \<and> sorted_wrt (<) ind \<and> (\<forall>i\<in>set ind. i < length saved)}"
    by blast
  then show "\<exists>idxs. comb_loop (length saved) r [0..<r] = Some idxs
         \<and> combinations saved r = Some (map (\<lambda>ind. map (\<lambda>i. array_get saved i) ind) idxs)
         \<and> (\<forall>ind\<in>set idxs. length ind = r \<and> sorted_wrt (<) ind
               \<and> (\<forall>i\<in>set ind. i < length saved))"
    using rn by (simp add: combinations_def)
next
  assume "length saved = 0 \<longrightarrow> r = 0"
  then have h: "length saved = 0 \<Longrightarrow> r = 0" by simp
  from cwr_loop_initial[OF h] obtain idxs where
    "cwr_loop (length saved) r (replicate r 0) = Some idxs"
    "set idxs = {ind. length ind = r \<and> sorted ind \<and> (\<forall>i\<in>set ind. i < length saved)}"
    by blast
  then show "\<exists>idxs. cwr_loop (length saved) r (replicate r 0) = Some idxs
         \<and> combinationsWithReplacement saved r =
             Some (map (\<lambda>ind. map (\<lambda>i. array_get saved i) ind) idxs)
         \<and> (\<forall>ind\<in>set idxs. length ind = r \<and> sorted ind \<and> (\<forall>i\<in>set ind. i < length saved))"
    using h by (auto simp add: combinationsWithReplacement_def)
qed

theorem index_tuple_invariants_witness:
  "(\<exists>idxs. comb_loop 3 2 [0..<2] = Some idxs
      \<and> (\<forall>ind\<in>set idxs. length ind = 2 \<and> sorted_wrt (<) ind \<and> (\<forall>i\<in>set ind. i < 3)))
   \<and> (\<exists>idxs. cwr_loop 3 2 (replicate 2 0) = Some idxs
      \<and> (\<forall>ind\<in>set idxs. length ind = 2 \<and> sorted ind \<and> (\<forall>i\<in>set ind. i < 3)))"
proof -
  have l: "length ''abc'' = 3" by simp
  have h: "2 \<le> length ''abc''" "length ''abc'' = 0 \<longrightarrow> (2 :: nat) = 0" by simp_all
  from index_tuple_invariants[of 2 "''abc''"] h show ?thesis
    unfolding l by blast
qed

end
